theory Spec2Isabelle
  imports Main "HOL-Library.Word"
begin

section \<open>Streaming standard input to S3 by multipart upload: the model\<close>

text \<open>
  The development embeds \<^verbatim>\<open>check_integrity\<close>, \<^verbatim>\<open>clean_up\<close>, \<^verbatim>\<open>do_upload\<close> and the
  tail of \<^verbatim>\<open>upload\<close> of \<^verbatim>\<open>streamtos3.py\<close>. Console output is left out. What the
  program does to the outside world (reading the stream, calling the S3 client, sleeping)
  is recorded as a list of events in the order the program performs them. The library
  calls whose failure depends on the program's arguments (\<^verbatim>\<open>math.log10\<close>,
  \<^verbatim>\<open>buf.read\<close>, \<^verbatim>\<open>time.sleep\<close>) fail in the model where they fail in CPython on a
  64-bit host.
\<close>

subsection \<open>Bytes, digests and their text forms\<close>

type_synonym bytes = "8 word list"

text \<open>
  \<^verbatim>\<open>hashlib.md5\<close> is a library function: the digest function is a parameter \<open>md5\<close> of
  every definition that needs it. A hash object is modelled by the bytes fed to it so far:
  \<^verbatim>\<open>hashlib.md5()\<close> is \<open>md5_new\<close>, \<^verbatim>\<open>hashlib.md5(chunk)\<close> is \<open>md5_of chunk\<close>,
  \<^verbatim>\<open>h.update(chunk)\<close> appends, and \<^verbatim>\<open>h.digest()\<close> applies the digest function to all
  the bytes fed.
\<close>

datatype md5_hash = MD5 (fed: bytes)

definition md5_new :: md5_hash where
  "md5_new = MD5 []"

definition md5_of :: "bytes \<Rightarrow> md5_hash" where
  "md5_of chunk = MD5 chunk"

definition md5_update :: "md5_hash \<Rightarrow> bytes \<Rightarrow> md5_hash" where
  "md5_update h chunk = MD5 (fed h @ chunk)"

definition digest :: "(bytes \<Rightarrow> bytes) \<Rightarrow> md5_hash \<Rightarrow> bytes" where
  "digest md5 h = md5 (fed h)"

definition hex_digit :: "nat \<Rightarrow> char" where
  "hex_digit n = ''0123456789abcdef'' ! (n mod 16)"

definition hexlify :: "bytes \<Rightarrow> string" where
  "hexlify bs = concat (map (\<lambda>b. [hex_digit (unat b div 16), hex_digit (unat b mod 16)]) bs)"

definition hexdigest :: "(bytes \<Rightarrow> bytes) \<Rightarrow> md5_hash \<Rightarrow> string" where
  "hexdigest md5 h = hexlify (digest md5 h)"

text \<open>\<^verbatim>\<open>str(n)\<close> for the length of a list: the decimal numeral without leading zeros.\<close>

fun str_nat :: "nat \<Rightarrow> string" where
  "str_nat n = (if n < 10 then [hex_digit n] else str_nat (n div 10) @ [hex_digit (n mod 10)])"

declare str_nat.simps [simp del]

text \<open>
  \<^verbatim>\<open>s.strip(chars)\<close>: every leading and every trailing character that occurs in
  \<open>chars\<close> is removed. \<^verbatim>\<open>s[1:-1]\<close>: the string without its first and last character,
  empty when the string has fewer than two characters.
\<close>

definition strip :: "string \<Rightarrow> string \<Rightarrow> string" where
  "strip chars s = rev (dropWhile (\<lambda>c. c \<in> set chars) (rev (dropWhile (\<lambda>c. c \<in> set chars) s)))"

definition dquote :: char where
  "dquote = CHR 0x22"

definition slice_1_m1 :: "string \<Rightarrow> string" where
  "slice_1_m1 s = butlast (tl s)"

subsection \<open>The S3 client, exceptions and events\<close>

text \<open>
  The client is outside the program. A run of the program is sequential and asks each
  question at most once: it opens one upload, sends attempt \<open>t\<close> of part \<open>n\<close> once for
  each pair \<open>(n, t)\<close>, completes or aborts once, and asks for the object's metadata once.
  So a client is given by its answers: each answer is either the \<^verbatim>\<open>ClientError\<close> that
  boto raises or the field of the response that the program reads.
\<close>

datatype 'a response = ClientError | Response 'a

record client =
  create_multipart_upload :: "string response"
  upload_part :: "nat \<Rightarrow> int \<Rightarrow> string response"
  complete_multipart_upload :: "unit response"
  abort_multipart_upload :: "unit response"
  head_object :: "string response"

text \<open>
  How a call ends when it does not return: \<^verbatim>\<open>sys.exit(code)\<close>, or an exception that
  nothing catches. \<open>UncaughtClientError\<close> is a \<^verbatim>\<open>ClientError\<close> raised outside every
  \<^verbatim>\<open>try\<close>.
\<close>

datatype exn =
    SystemExit int
  | ValueError
  | UnboundLocalError
  | OverflowError
  | MemoryError
  | UncaughtClientError

text \<open>
  The status that the process leaves to its caller: the argument of \<^verbatim>\<open>sys.exit\<close> as a
  byte, and 1 after an exception that nothing catches.
\<close>

definition exit_status :: "exn \<Rightarrow> int" where
  "exit_status e = (case e of SystemExit n \<Rightarrow> n mod 256 | _ \<Rightarrow> 1)"

datatype event =
    CreateMultipartUpload
  | ReadChunk bytes
  | UploadPart nat bytes string
  | Sleep int
  | CompleteMultipartUpload string "(nat \<times> string) list"
  | AbortMultipartUpload string

text \<open>
  The local variables of \<^verbatim>\<open>do_upload\<close> that the loops change, with the unread rest of
  the input and the events so far. \<open>upload_try\<close> is \<open>None\<close> while the variable is unbound.
\<close>

record locals =
  buf :: bytes
  num :: nat
  parts :: "(nat \<times> string) list"
  hashes :: "md5_hash list"
  in_md5sum :: md5_hash
  upload_try :: "int option"
  events :: "event list"

subsection \<open>Library calls that can fail: \<^verbatim>\<open>time.sleep\<close> and \<^verbatim>\<open>buf.read\<close>\<close>

text \<open>
  \<^verbatim>\<open>time.sleep(secs)\<close> on an integer (CPython, 64 bit): the seconds are converted to
  nanoseconds in a signed 64-bit number, which raises \<^verbatim>\<open>OverflowError\<close> when
  \<open>secs\<close> is beyond 9223372036 in absolute value; after that a negative length raises
  \<^verbatim>\<open>ValueError\<close>. Otherwise the call returns.
\<close>

definition sleep_error :: "int \<Rightarrow> exn option" where
  "sleep_error secs =
     (if secs < - 9223372036 \<or> 9223372036 < secs then Some OverflowError
      else if secs < 0 then Some ValueError
      else None)"

text \<open>
  \<^verbatim>\<open>buf.read(n)\<close> on a buffered binary reader (CPython, 64 bit): a size \<open>n\<close> below \<open>-1\<close>
  raises \<^verbatim>\<open>ValueError\<close>; \<open>-1\<close> reads all that is left; otherwise the reader allocates
  \<open>n\<close> bytes before it reads, which raises \<^verbatim>\<open>OverflowError\<close> for a size above
  \<open>2\<^sup>6\<^sup>3 - 34\<close> and \<^verbatim>\<open>MemoryError\<close> for a size that the process has no memory for.
  The parameter \<open>room\<close> is the largest size that the process can allocate, a fact of the
  host. A read that succeeds returns the next \<open>n\<close> bytes of the input, fewer at its end,
  and the empty string once nothing is left; its second component is what is left unread.
\<close>

definition read_error :: "int \<Rightarrow> int \<Rightarrow> exn option" where
  "read_error room n =
     (if n < - 1 then Some ValueError
      else if n = - 1 then None
      else if 2 ^ 63 - 34 < n then Some OverflowError
      else if room < n then Some MemoryError
      else None)"

definition read :: "int \<Rightarrow> int \<Rightarrow> bytes \<Rightarrow> exn + bytes \<times> bytes" where
  "read room n data =
     (case read_error room n of
        Some e \<Rightarrow> Inl e
      | None \<Rightarrow>
          if n = - 1 then Inr (data, [])
          else Inr (take (nat n) data, drop (nat n) data))"

subsection \<open>\<^verbatim>\<open>check_integrity\<close> (lines 56 to 75)\<close>

definition local_etag :: "(bytes \<Rightarrow> bytes) \<Rightarrow> md5_hash list \<Rightarrow> string" where
  "local_etag md5 hs =
     hexlify (md5 (concat (map (digest md5) hs))) @ ''-'' @ str_nat (length hs)"

definition check_integrity :: "(bytes \<Rightarrow> bytes) \<Rightarrow> client \<Rightarrow> md5_hash list \<Rightarrow> exn + bool" where
  "check_integrity md5 cl hs =
     (case head_object cl of
        ClientError \<Rightarrow> Inl (SystemExit 8)
      | Response etag \<Rightarrow>
          (let remote_etag = strip [dquote, dquote] etag
           in if local_etag md5 hs \<noteq> remote_etag then Inr False else Inr True))"

subsection \<open>\<^verbatim>\<open>do_upload\<close> (lines 78 to 181)\<close>

text \<open>
  The retry loop of lines 120 to 155 for one chunk. One round: count the attempt, send the
  part; a response is appended to \<open>parts\<close> (line 133) and then compared with the chunk's
  digest (line 135). A \<^verbatim>\<open>ClientError\<close> and a mismatch both reach the handler of line
  151, which sleeps; nothing catches what \<^verbatim>\<open>time.sleep\<close> raises.
\<close>

function upload_tries ::
  "(bytes \<Rightarrow> bytes) \<Rightarrow> client \<Rightarrow> string \<Rightarrow> int \<Rightarrow> int \<Rightarrow> bytes \<Rightarrow> md5_hash \<Rightarrow> locals
     \<Rightarrow> exn option \<times> locals" where
  "upload_tries md5 cl upload_id secs retry chunk part_md5sum st =
     (case upload_try st of
        None \<Rightarrow> (Some UnboundLocalError, st)
      | Some t \<Rightarrow>
          if t < retry then
            (let st1 = st\<lparr>upload_try := Some (t + 1),
                          events := events st @ [UploadPart (num st) chunk upload_id]\<rparr>
             in case upload_part cl (num st) (t + 1) of
                  ClientError \<Rightarrow>
                    (case sleep_error secs of
                       Some e \<Rightarrow> (Some e, st1)
                     | None \<Rightarrow>
                         upload_tries md5 cl upload_id secs retry chunk part_md5sum
                           (st1\<lparr>events := events st1 @ [Sleep secs]\<rparr>))
                | Response etag \<Rightarrow>
                    (let st2 = st1\<lparr>parts := parts st1 @ [(num st, etag)]\<rparr>
                     in if slice_1_m1 etag \<noteq> hexdigest md5 part_md5sum then
                          (case sleep_error secs of
                             Some e \<Rightarrow> (Some e, st2)
                           | None \<Rightarrow>
                               upload_tries md5 cl upload_id secs retry chunk part_md5sum
                                 (st2\<lparr>events := events st2 @ [Sleep secs]\<rparr>))
                        else (None, st2)))
          else (None, st))"
  by pat_completeness auto
termination
  by (relation "measure (\<lambda>(md5, cl, upload_id, secs, retry, chunk, part_md5sum, st).
        nat (retry - the (upload_try st)))") auto

declare upload_tries.simps [simp del]

text \<open>Lines 113 to 119: what happens to a chunk that was read, before its first attempt.\<close>

definition before_tries :: "bytes \<Rightarrow> locals \<Rightarrow> locals" where
  "before_tries chunk st =
     st\<lparr>num := num st + 1,
        in_md5sum := md5_update (in_md5sum st) chunk,
        hashes := hashes st @ [md5_of chunk],
        upload_try := Some 0\<rparr>"

text \<open>
  The reading loop of lines 107 to 155. Nothing catches what \<^verbatim>\<open>buf.read\<close> raises. After
  the retry loop the reading loop goes on, whether the part was uploaded or not. The retry
  loop does not touch the input (lemma \<open>upload_tries_result\<close>); the recursive call says
  so by taking \<open>buf\<close> from the state before it, which makes the input visibly shorter at
  each round.
\<close>

function read_loop ::
  "(bytes \<Rightarrow> bytes) \<Rightarrow> int \<Rightarrow> client \<Rightarrow> string \<Rightarrow> int \<Rightarrow> int \<Rightarrow> int \<Rightarrow> locals
     \<Rightarrow> exn option \<times> locals" where
  "read_loop md5 room cl upload_id chunksize secs retry st =
     (case read room chunksize (buf st) of
        Inl e \<Rightarrow> (Some e, st)
      | Inr (chunk, rest) \<Rightarrow>
          (let st1 = st\<lparr>buf := rest, events := events st @ [ReadChunk chunk]\<rparr>
           in if chunk = [] then (None, st1)
              else (case upload_tries md5 cl upload_id secs retry chunk (md5_of chunk)
                           (before_tries chunk st1) of
                      (Some e, st2) \<Rightarrow> (Some e, st2)
                    | (None, st2) \<Rightarrow>
                        read_loop md5 room cl upload_id chunksize secs retry
                          (st2\<lparr>buf := buf st1\<rparr>))))"
  by pat_completeness auto
termination
  by (relation "measure (\<lambda>(md5, room, cl, upload_id, chunksize, secs, retry, st).
        length (buf st))")
     (auto simp: read_def split: option.splits if_splits)

declare read_loop.simps [simp del]

text \<open>\<^verbatim>\<open>clean_up\<close> (lines 47 to 53): the abort call is in no \<^verbatim>\<open>try\<close>.\<close>

definition clean_up :: "client \<Rightarrow> string \<Rightarrow> event list \<Rightarrow> exn option \<times> event list" where
  "clean_up cl upload_id evs =
     (case abort_multipart_upload cl of
        ClientError \<Rightarrow> (Some UncaughtClientError, evs @ [AbortMultipartUpload upload_id])
      | Response u \<Rightarrow> (None, evs @ [AbortMultipartUpload upload_id]))"

definition init_locals :: "bytes \<Rightarrow> locals" where
  "init_locals input =
     \<lparr>buf = input, num = 0, parts = [], hashes = [], in_md5sum = md5_new,
      upload_try = None, events = [CreateMultipartUpload]\<rparr>"

text \<open>
  \<^verbatim>\<open>math.log10(chunksize)\<close> of line 99 raises \<^verbatim>\<open>ValueError\<close> unless \<open>chunksize\<close> is
  positive. Line 158 reads \<open>upload_try\<close>, which is bound only if a chunk was read.
\<close>

definition do_upload ::
  "(bytes \<Rightarrow> bytes) \<Rightarrow> int \<Rightarrow> client \<Rightarrow> bytes \<Rightarrow> int \<Rightarrow> int \<Rightarrow> int
     \<Rightarrow> (exn + string \<times> md5_hash \<times> md5_hash list) \<times> event list" where
  "do_upload md5 room cl input chunksize secs retry =
     (case create_multipart_upload cl of
        ClientError \<Rightarrow> (Inl (SystemExit 7), [CreateMultipartUpload])
      | Response upload_id \<Rightarrow>
          if chunksize \<le> 0 then (Inl ValueError, [CreateMultipartUpload])
          else
            (case read_loop md5 room cl upload_id chunksize secs retry (init_locals input) of
               (Some e, st) \<Rightarrow> (Inl e, events st)
             | (None, st) \<Rightarrow>
                 (case upload_try st of
                    None \<Rightarrow> (Inl UnboundLocalError, events st)
                  | Some t \<Rightarrow>
                      if t \<ge> retry then
                        (case clean_up cl upload_id (events st) of
                           (Some e, evs) \<Rightarrow> (Inl e, evs)
                         | (None, evs) \<Rightarrow> (Inl (SystemExit 8), evs))
                      else
                        (case complete_multipart_upload cl of
                           ClientError \<Rightarrow>
                             (Inl (SystemExit 8),
                              events st @ [CompleteMultipartUpload upload_id (parts st)])
                         | Response u \<Rightarrow>
                             (Inr (upload_id, in_md5sum st, hashes st),
                              events st @ [CompleteMultipartUpload upload_id (parts st)])))))"

subsection \<open>\<^verbatim>\<open>upload\<close> (lines 248 to 265)\<close>

text \<open>
  \<^verbatim>\<open>upload\<close> from the point where the client exists and the input is open: it ends the
  process with \<^verbatim>\<open>sys.exit\<close> in every case, so its value is how the process ends.
\<close>

definition upload ::
  "(bytes \<Rightarrow> bytes) \<Rightarrow> int \<Rightarrow> client \<Rightarrow> bytes \<Rightarrow> int \<Rightarrow> int \<Rightarrow> int \<Rightarrow> exn" where
  "upload md5 room cl input chunksize secs retry =
     (case fst (do_upload md5 room cl input chunksize secs retry) of
        Inl e \<Rightarrow> e
      | Inr (upload_id, md5sum, hs) \<Rightarrow>
          (case check_integrity md5 cl hs of
             Inl e \<Rightarrow> e
           | Inr ok \<Rightarrow> if ok then SystemExit 0 else SystemExit 1))"

subsection \<open>Splitting an input into chunks\<close>

fun chunks :: "nat \<Rightarrow> bytes \<Rightarrow> bytes list" where
  "chunks n xs = (if n = 0 \<or> xs = [] then [] else take n xs # chunks n (drop n xs))"

declare chunks.simps [simp del]

subsection \<open>Kinds of events\<close>

text \<open>The events of the retry loop, and the two calls that end a session.\<close>

fun is_part_event :: "event \<Rightarrow> bool" where
  "is_part_event (UploadPart n c u) = True"
| "is_part_event (Sleep s) = True"
| "is_part_event e = False"

fun is_final :: "event \<Rightarrow> bool" where
  "is_final (CompleteMultipartUpload u ps) = True"
| "is_final (AbortMultipartUpload u) = True"
| "is_final e = False"

text \<open>
  A stand-in for the digest function in concrete runs: one byte, the number of bytes
  digested. Its text form has two hexadecimal digits.
\<close>

definition len_digest :: "bytes \<Rightarrow> bytes" where
  "len_digest bs = [of_nat (length bs)]"

text \<open>
  The tag as S3 writes it, between double quotes, and a client that opens the upload,
  completes and aborts without error, and answers the attempts as \<open>f\<close> says.
\<close>

definition quoted :: "string \<Rightarrow> string" where
  "quoted s = dquote # s @ [dquote]"

definition answering :: "(nat \<Rightarrow> int \<Rightarrow> string response) \<Rightarrow> client" where
  "answering f =
     \<lparr>create_multipart_upload = Response ''id-1'', upload_part = f,
      complete_multipart_upload = Response (), abort_multipart_upload = Response (),
      head_object = ClientError\<rparr>"

text \<open>The non-empty chunks that a list of events reads, in order.\<close>

fun chunks_read :: "event list \<Rightarrow> bytes list" where
  "chunks_read [] = []"
| "chunks_read (ReadChunk c # es) = (if c = [] then chunks_read es else c # chunks_read es)"
| "chunks_read (e # es) = chunks_read es"

text \<open>
  The tag that S3 returns for a part whose body is \<open>chunk\<close>, for a digest function \<open>md5\<close>,
  and a client on which no attempt of part 1 succeeds, while every other part succeeds at
  once on a body \<open>chunk\<close>.
\<close>

definition etag_of :: "(bytes \<Rightarrow> bytes) \<Rightarrow> bytes \<Rightarrow> string" where
  "etag_of md5 chunk = quoted (hexlify (md5 chunk))"

definition failing_part_1 :: "(bytes \<Rightarrow> bytes) \<Rightarrow> bytes \<Rightarrow> client" where
  "failing_part_1 md5 chunk =
     answering (\<lambda>n t. if n = 1 then ClientError else Response (etag_of md5 chunk))"

text \<open>
  Two clients that differ in the answer to the first attempt of a part only: a tag that
  does not match the digest of \<open>chunk\<close> (it is one character longer), or a
  \<^verbatim>\<open>ClientError\<close>. Every later attempt gets the matching tag.
\<close>

definition wrong_etag :: "(bytes \<Rightarrow> bytes) \<Rightarrow> bytes \<Rightarrow> string" where
  "wrong_etag md5 chunk = quoted (CHR ''x'' # hexlify (md5 chunk))"

definition mismatch_then_ok :: "(bytes \<Rightarrow> bytes) \<Rightarrow> bytes \<Rightarrow> client" where
  "mismatch_then_ok md5 chunk =
     answering (\<lambda>n t. if t = 1 then Response (wrong_etag md5 chunk)
                     else Response (etag_of md5 chunk))"

definition error_then_ok :: "(bytes \<Rightarrow> bytes) \<Rightarrow> bytes \<Rightarrow> client" where
  "error_then_ok md5 chunk =
     answering (\<lambda>n t. if t = 1 then ClientError else Response (etag_of md5 chunk))"

section \<open>The retry loop\<close>

lemma sleep_error_cases: "sleep_error secs \<in> {None, Some ValueError, Some OverflowError}"
  by (simp add: sleep_error_def)

lemma upload_tries_unbound:
  "upload_try st = None \<Longrightarrow>
     upload_tries md5 cl uid secs retry chunk h st = (Some UnboundLocalError, st)"
  by (subst upload_tries.simps) simp

lemma upload_tries_shape:
  "upload_try st = Some t \<Longrightarrow>
     \<exists>t' ps evs. snd (upload_tries md5 cl uid secs retry chunk h st) =
         st\<lparr>upload_try := Some t', parts := parts st @ ps, events := events st @ evs\<rparr> \<and>
       t \<le> t' \<and> (\<forall>e\<in>set evs. is_part_event e) \<and> (\<forall>p\<in>set ps. fst p = num st)"
proof (induction md5 cl uid secs retry chunk h st arbitrary: t rule: upload_tries.induct)
  case (1 md5 cl uid secs retry chunk h st)
  let ?U = "UploadPart (num st) chunk uid"
  let ?st1 = "st\<lparr>upload_try := Some (t + 1), events := events st @ [?U]\<rparr>"
  have here: "st = st\<lparr>upload_try := Some t, parts := parts st @ [], events := events st @ []\<rparr>"
    using "1.prems" by simp
  show ?case
  proof (cases "t < retry")
    case False
    then have "upload_tries md5 cl uid secs retry chunk h st = (None, st)"
      using "1.prems" by (subst upload_tries.simps) simp
    then show ?thesis using here by (metis empty_iff empty_set order_refl snd_conv)
  next
    case True
    show ?thesis
    proof (cases "upload_part cl (num st) (t + 1)")
      case ClientError
      show ?thesis
      proof (cases "sleep_error secs")
        case neg: (Some x)
        have "upload_tries md5 cl uid secs retry chunk h st = (Some x, ?st1)"
          using "1.prems" True ClientError neg by (subst upload_tries.simps) simp
        then have "snd (upload_tries md5 cl uid secs retry chunk h st) =
            st\<lparr>upload_try := Some (t + 1), parts := parts st @ [], events := events st @ [?U]\<rparr>"
          by simp
        then show ?thesis by (rule_tac x = "t + 1" in exI, rule_tac x = "[]" in exI,
              rule_tac x = "[?U]" in exI) simp
      next
        case nonneg: None
        let ?st2 = "?st1\<lparr>events := events ?st1 @ [Sleep secs]\<rparr>"
        have eq: "upload_tries md5 cl uid secs retry chunk h st =
                  upload_tries md5 cl uid secs retry chunk h ?st2"
          using "1.prems" True ClientError nonneg
          by (subst upload_tries.simps) simp
        have "upload_try ?st2 = Some (t + 1)" by simp
        from "1.IH"(1) [OF "1.prems" True refl ClientError nonneg this]
        obtain t' ps evs where
          r: "snd (upload_tries md5 cl uid secs retry chunk h ?st2) =
                ?st2\<lparr>upload_try := Some t', parts := parts ?st2 @ ps, events := events ?st2 @ evs\<rparr>"
          and le: "t + 1 \<le> t'" and ev: "\<forall>e\<in>set evs. is_part_event e"
          and ps: "\<forall>p\<in>set ps. fst p = num ?st2"
          by blast
        have "snd (upload_tries md5 cl uid secs retry chunk h st) =
            st\<lparr>upload_try := Some t', parts := parts st @ ps,
               events := events st @ (?U # Sleep secs # evs)\<rparr>"
          using eq r by simp
        moreover have "t \<le> t'" using le by simp
        moreover have "\<forall>e\<in>set (?U # Sleep secs # evs). is_part_event e" using ev by simp
        moreover have "\<forall>p\<in>set ps. fst p = num st" using ps by simp
        ultimately show ?thesis by blast
      qed
    next
      case (Response etag)
      let ?st2 = "?st1\<lparr>parts := parts ?st1 @ [(num st, etag)]\<rparr>"
      show ?thesis
      proof (cases "slice_1_m1 etag \<noteq> hexdigest md5 h")
        case match: False
        have "upload_tries md5 cl uid secs retry chunk h st = (None, ?st2)"
          using "1.prems" True Response match by (subst upload_tries.simps) simp
        then have "snd (upload_tries md5 cl uid secs retry chunk h st) =
            st\<lparr>upload_try := Some (t + 1), parts := parts st @ [(num st, etag)],
               events := events st @ [?U]\<rparr>"
          by simp
        then show ?thesis by (rule_tac x = "t + 1" in exI, rule_tac x = "[(num st, etag)]" in exI,
              rule_tac x = "[?U]" in exI) simp
      next
        case mismatch: True
        show ?thesis
        proof (cases "sleep_error secs")
          case neg: (Some x)
          have "upload_tries md5 cl uid secs retry chunk h st = (Some x, ?st2)"
            using "1.prems" True Response mismatch neg by (subst upload_tries.simps) simp
          then have "snd (upload_tries md5 cl uid secs retry chunk h st) =
              st\<lparr>upload_try := Some (t + 1), parts := parts st @ [(num st, etag)],
                 events := events st @ [?U]\<rparr>"
            by simp
          then show ?thesis by (rule_tac x = "t + 1" in exI, rule_tac x = "[(num st, etag)]" in exI,
                rule_tac x = "[?U]" in exI) simp
        next
          case nonneg: None
          let ?st3 = "?st2\<lparr>events := events ?st2 @ [Sleep secs]\<rparr>"
          have eq: "upload_tries md5 cl uid secs retry chunk h st =
                    upload_tries md5 cl uid secs retry chunk h ?st3"
            using "1.prems" True Response mismatch nonneg
            by (subst upload_tries.simps) simp
          have "upload_try ?st3 = Some (t + 1)" by simp
          from "1.IH"(2) [OF "1.prems" True refl Response refl mismatch nonneg this]
          obtain t' ps evs where
            r: "snd (upload_tries md5 cl uid secs retry chunk h ?st3) =
                  ?st3\<lparr>upload_try := Some t', parts := parts ?st3 @ ps, events := events ?st3 @ evs\<rparr>"
            and le: "t + 1 \<le> t'" and ev: "\<forall>e\<in>set evs. is_part_event e"
            and ps: "\<forall>p\<in>set ps. fst p = num ?st3"
            by blast
          have "snd (upload_tries md5 cl uid secs retry chunk h st) =
              st\<lparr>upload_try := Some t', parts := parts st @ ((num st, etag) # ps),
                 events := events st @ (?U # Sleep secs # evs)\<rparr>"
            using eq r by simp
          moreover have "t \<le> t'" using le by simp
          moreover have "\<forall>e\<in>set (?U # Sleep secs # evs). is_part_event e" using ev by simp
          moreover have "\<forall>p\<in>set ((num st, etag) # ps). fst p = num st" using ps by simp
          ultimately show ?thesis by blast
        qed
      qed
    qed
  qed
qed

lemma part_event_not_final: "is_part_event e \<Longrightarrow> \<not> is_final e"
  by (cases e) simp_all

lemma upload_tries_result:
  assumes "upload_tries md5 cl uid secs retry chunk h st = (r, st2)" and "upload_try st = Some t"
  shows "buf st2 = buf st" and "num st2 = num st" and "hashes st2 = hashes st"
    and "in_md5sum st2 = in_md5sum st" and "upload_try st2 \<noteq> None"
    and "\<exists>evs. events st2 = events st @ evs \<and> (\<forall>e\<in>set evs. is_part_event e)"
proof -
  from upload_tries_shape [OF assms(2), of md5 cl uid secs retry chunk h] assms(1)
  obtain t' ps evs where
    st2: "st2 = st\<lparr>upload_try := Some t', parts := parts st @ ps, events := events st @ evs\<rparr>"
    and ev: "\<forall>e\<in>set evs. is_part_event e"
    by auto
  show "buf st2 = buf st" "num st2 = num st" "hashes st2 = hashes st"
    "in_md5sum st2 = in_md5sum st" "upload_try st2 \<noteq> None"
    by (simp_all add: st2)
  show "\<exists>evs. events st2 = events st @ evs \<and> (\<forall>e\<in>set evs. is_part_event e)"
    using ev by (simp add: st2)
qed

lemma upload_tries_exn:
  "fst (upload_tries md5 cl uid secs retry chunk h st) \<in>
     {None, Some ValueError, Some OverflowError, Some UnboundLocalError}"
proof (induction md5 cl uid secs retry chunk h st rule: upload_tries.induct)
  case (1 md5 cl uid secs retry chunk h st)
  show ?case
  proof (cases "upload_try st")
    case None
    then show ?thesis by (simp add: upload_tries_unbound)
  next
    case (Some t)
    show ?thesis
    proof (cases "t < retry")
      case False
      then show ?thesis using Some by (subst upload_tries.simps) simp
    next
      case True
      show ?thesis
      proof (cases "upload_part cl (num st) (t + 1)")
        case ClientError
        show ?thesis
        proof (cases "sleep_error secs")
          case raised: (Some x)
          then show ?thesis using Some \<open>t < retry\<close> ClientError sleep_error_cases [of secs]
            by (subst upload_tries.simps) auto
        next
          case slept: None
          from "1.IH"(1) [OF Some \<open>t < retry\<close> refl ClientError slept]
          show ?thesis using Some \<open>t < retry\<close> ClientError slept
            by (subst upload_tries.simps) simp
        qed
      next
        case (Response etag)
        show ?thesis
        proof (cases "slice_1_m1 etag \<noteq> hexdigest md5 h")
          case False
          then show ?thesis using Some \<open>t < retry\<close> Response
            by (subst upload_tries.simps) simp
        next
          case mismatch: True
          show ?thesis
          proof (cases "sleep_error secs")
            case raised: (Some x)
            then show ?thesis using Some \<open>t < retry\<close> Response mismatch sleep_error_cases [of secs]
              by (subst upload_tries.simps) auto
          next
            case slept: None
            from "1.IH"(2) [OF Some \<open>t < retry\<close> refl Response refl mismatch slept]
            show ?thesis using Some \<open>t < retry\<close> Response mismatch slept
              by (subst upload_tries.simps) simp
          qed
        qed
      qed
    qed
  qed
qed

section \<open>The reading loop\<close>

lemma chunks_Nil: "take n xs = [] \<Longrightarrow> chunks n xs = []"
  by (subst chunks.simps) auto

lemma chunks_Cons: "take n xs \<noteq> [] \<Longrightarrow> chunks n xs = take n xs # chunks n (drop n xs)"
  by (subst chunks.simps) auto

lemma concat_chunks: "0 < n \<Longrightarrow> concat (chunks n xs) = xs"
proof (induction n xs rule: chunks.induct)
  case (1 n xs)
  show ?case
  proof (cases "xs = []")
    case True
    then show ?thesis by (simp add: chunks_Nil)
  next
    case False
    then have "take n xs \<noteq> []" using "1.prems" by simp
    then show ?thesis using "1.IH" "1.prems" False by (simp add: chunks_Cons)
  qed
qed

lemma read_error_cases:
  "read_error room n \<in> {None, Some ValueError, Some OverflowError, Some MemoryError}"
  by (simp add: read_error_def)

lemma read_error_positive:
  "0 < n \<Longrightarrow> read_error room n = None \<longleftrightarrow> n \<le> 2 ^ 63 - 34 \<and> n \<le> room"
  by (auto simp: read_error_def)

lemma read_raises: "read room n data = Inl e \<longleftrightarrow> read_error room n = Some e"
  by (auto simp: read_def split: option.splits)

lemma read_returns:
  "0 < n \<Longrightarrow> read room n data = Inr (chunk, rest) \<longleftrightarrow>
     read_error room n = None \<and> chunk = take (nat n) data \<and> rest = drop (nat n) data"
  by (auto simp: read_def split: option.splits)

lemma read_shorter:
  "read room n data = Inr (chunk, rest) \<Longrightarrow> chunk \<noteq> [] \<Longrightarrow> length rest < length data"
  by (auto simp: read_def split: option.splits if_splits)

lemma read_loop_raise:
  "read room chunksize (buf st) = Inl e \<Longrightarrow>
     read_loop md5 room cl uid chunksize secs retry st = (Some e, st)"
  by (subst read_loop.simps) simp

lemma read_loop_end:
  "read room chunksize (buf st) = Inr ([], rest) \<Longrightarrow>
     read_loop md5 room cl uid chunksize secs retry st =
       (None, st\<lparr>buf := rest, events := events st @ [ReadChunk []]\<rparr>)"
  by (subst read_loop.simps) (simp add: Let_def)

lemma read_loop_step:
  "read room chunksize (buf st) = Inr (chunk, rest) \<Longrightarrow> chunk \<noteq> [] \<Longrightarrow>
     read_loop md5 room cl uid chunksize secs retry st =
       (case upload_tries md5 cl uid secs retry chunk (md5_of chunk)
               (before_tries chunk (st\<lparr>buf := rest, events := events st @ [ReadChunk chunk]\<rparr>)) of
          (Some e, st2) \<Rightarrow> (Some e, st2)
        | (None, st2) \<Rightarrow>
            read_loop md5 room cl uid chunksize secs retry (st2\<lparr>buf := rest\<rparr>))"
  by (subst read_loop.simps) (simp add: Let_def split: prod.splits option.splits)

lemma read_loop_events:
  "read_loop md5 room cl uid chunksize secs retry st = (r, st') \<Longrightarrow>
     \<exists>evs. events st' = events st @ evs \<and> (\<forall>e\<in>set evs. \<not> is_final e)"
proof (induction "length (buf st)" arbitrary: st rule: less_induct)
  case less
  show ?case
  proof (cases "read room chunksize (buf st)")
    case (Inl e)
    then have "st' = st" using less.prems by (simp add: read_loop_raise)
    then show ?thesis by simp
  next
    case (Inr p)
    obtain chunk rest where p: "p = (chunk, rest)" by (cases p)
    note rd = Inr [unfolded p]
    show ?thesis
    proof (cases "chunk = []")
      case True
      then show ?thesis using less.prems rd by (auto simp: read_loop_end)
    next
      case False
      let ?st1 = "st\<lparr>buf := rest, events := events st @ [ReadChunk chunk]\<rparr>"
      obtain r2 st2 where
        t: "upload_tries md5 cl uid secs retry chunk (md5_of chunk) (before_tries chunk ?st1) = (r2, st2)"
        by (cases "upload_tries md5 cl uid secs retry chunk (md5_of chunk) (before_tries chunk ?st1)")
      have b: "upload_try (before_tries chunk ?st1) = Some 0" by (simp add: before_tries_def)
      from upload_tries_result(6) [OF t b] obtain evs where
        evs: "events st2 = events st @ ReadChunk chunk # evs" "\<forall>e\<in>set evs. is_part_event e"
        by (auto simp: before_tries_def)
      have nf: "\<forall>e\<in>set (ReadChunk chunk # evs). \<not> is_final e"
        using evs(2) by (auto dest: part_event_not_final)
      show ?thesis
      proof (cases r2)
        case (Some e)
        then have "st' = st2" using less.prems False t rd by (simp add: read_loop_step)
        then show ?thesis using evs(1) nf by blast
      next
        case None
        let ?st3 = "st2\<lparr>buf := rest\<rparr>"
        have rec: "read_loop md5 room cl uid chunksize secs retry ?st3 = (r, st')"
          using less.prems False t None rd by (simp add: read_loop_step)
        have "length (buf ?st3) < length (buf st)"
          using read_shorter [OF rd False] by simp
        from less.hyps [OF this rec] obtain evs' where
          "events st' = events ?st3 @ evs'" "\<forall>e\<in>set evs'. \<not> is_final e" by blast
        then have "events st' = events st @ (ReadChunk chunk # evs) @ evs'"
          using evs(1) by simp
        moreover have "\<forall>e\<in>set ((ReadChunk chunk # evs) @ evs'). \<not> is_final e"
          using nf \<open>\<forall>e\<in>set evs'. \<not> is_final e\<close> by auto
        ultimately show ?thesis by blast
      qed
    qed
  qed
qed

lemma read_loop_readable:
  "read_loop md5 room cl uid chunksize secs retry st = (None, st') \<Longrightarrow>
     read_error room chunksize = None"
proof (cases "read room chunksize (buf st)")
  case (Inl e)
  assume "read_loop md5 room cl uid chunksize secs retry st = (None, st')"
  then show ?thesis using Inl by (simp add: read_loop_raise)
next
  case (Inr p)
  then show ?thesis by (auto simp: read_def split: option.splits)
qed

lemma read_loop_returns:
  "read_loop md5 room cl uid chunksize secs retry st = (None, st') \<Longrightarrow> 0 < chunksize \<Longrightarrow>
     hashes st' = hashes st @ map md5_of (chunks (nat chunksize) (buf st)) \<and>
     in_md5sum st' = foldl md5_update (in_md5sum st) (chunks (nat chunksize) (buf st)) \<and>
     num st' = num st + length (chunks (nat chunksize) (buf st)) \<and>
     (if chunks (nat chunksize) (buf st) = [] then upload_try st' = upload_try st
      else upload_try st' \<noteq> None)"
proof (induction "length (buf st)" arbitrary: st rule: less_induct)
  case less
  let ?n = "nat chunksize"
  let ?chunk = "take ?n (buf st)"
  let ?rest = "drop ?n (buf st)"
  have ok: "read_error room chunksize = None"
    using less.prems(1) by (rule read_loop_readable)
  have rd: "read room chunksize (buf st) = Inr (?chunk, ?rest)"
    using ok less.prems(2) by (simp add: read_returns)
  show ?case
  proof (cases "?chunk = []")
    case True
    then show ?thesis using less.prems(1) rd by (auto simp: read_loop_end chunks_Nil)
  next
    case False
    let ?st1 = "st\<lparr>buf := ?rest, events := events st @ [ReadChunk ?chunk]\<rparr>"
    obtain r2 st2 where
      t: "upload_tries md5 cl uid secs retry ?chunk (md5_of ?chunk) (before_tries ?chunk ?st1) = (r2, st2)"
      by (cases "upload_tries md5 cl uid secs retry ?chunk (md5_of ?chunk) (before_tries ?chunk ?st1)")
    have b: "upload_try (before_tries ?chunk ?st1) = Some 0" by (simp add: before_tries_def)
    note keep = upload_tries_result(1-5) [OF t b]
    have r2: "r2 = None"
      using less.prems(1) t by (cases r2) (simp_all add: read_loop_step [OF rd False])
    let ?st3 = "st2\<lparr>buf := ?rest\<rparr>"
    have rec: "read_loop md5 room cl uid chunksize secs retry ?st3 = (None, st')"
      using less.prems(1) t r2 by (simp add: read_loop_step [OF rd False])
    have "length (buf ?st3) < length (buf st)" using False by auto
    note IH = less.hyps [OF this rec less.prems(2)]
    have c: "chunks ?n (buf st) = ?chunk # chunks ?n ?rest"
      using False by (rule chunks_Cons)
    show ?thesis
    proof (cases "chunks ?n ?rest = []")
      case True
      then show ?thesis using IH keep c by (simp add: before_tries_def)
    next
      case False
      then show ?thesis using IH keep c by (simp add: before_tries_def)
    qed
  qed
qed

section \<open>Text forms and quoting\<close>

lemma hex_digit_not_dquote: "hex_digit n \<noteq> dquote"
proof -
  have "n mod 16 < length ''0123456789abcdef''" by simp
  then have "hex_digit n \<in> set ''0123456789abcdef''"
    unfolding hex_digit_def by (rule nth_mem)
  moreover have "dquote \<notin> set ''0123456789abcdef''" by (simp add: dquote_def)
  ultimately show ?thesis by metis
qed

lemma hexlify_no_dquote: "dquote \<notin> set (hexlify bs)"
  by (induction bs) (simp_all add: hexlify_def hex_digit_not_dquote [symmetric])

lemma str_nat_no_dquote: "dquote \<notin> set (str_nat n)"
proof (induction n rule: str_nat.induct)
  case (1 n)
  show ?case
  proof (cases "n < 10")
    case True
    then show ?thesis by (subst str_nat.simps) (simp add: hex_digit_not_dquote [symmetric])
  next
    case False
    then show ?thesis using "1.IH"
      by (subst str_nat.simps) (simp add: hex_digit_not_dquote [symmetric])
  qed
qed

lemma local_etag_no_dquote: "dquote \<notin> set (local_etag md5 hs)"
  by (simp add: local_etag_def hexlify_no_dquote str_nat_no_dquote) (simp add: dquote_def)

lemma dropWhile_eq_replicate: "dropWhile (\<lambda>c. c = q) (replicate a q @ xs) = dropWhile (\<lambda>c. c = q) xs"
  by (induction a) simp_all

lemma dropWhile_eq_notin: "q \<notin> set s \<Longrightarrow> dropWhile (\<lambda>c. c = q) (s @ xs) = s @ xs" if "s \<noteq> []"
  using that by (cases s) auto

lemma strip_quoted:
  assumes "q \<notin> set s"
  shows "strip [q, q] (replicate a q @ s @ replicate b q) = s"
proof (cases "s = []")
  case True
  have "dropWhile (\<lambda>c. c = q) (replicate n q) = []" for n by (induction n) simp_all
  then show ?thesis using True by (simp add: strip_def dropWhile_eq_replicate)
next
  case False
  have 1: "dropWhile (\<lambda>c. c = q) (replicate a q @ s @ replicate b q) = s @ replicate b q"
    using assms False by (simp add: dropWhile_eq_replicate dropWhile_eq_notin)
  have "rev (s @ replicate b q) = replicate b q @ rev s @ []" by simp
  then have 2: "dropWhile (\<lambda>c. c = q) (rev (s @ replicate b q)) = rev s"
    using assms False dropWhile_eq_notin [of "rev s" q "[]"]
    by (simp add: dropWhile_eq_replicate)
  show ?thesis using 1 2 by (simp add: strip_def)
qed

section \<open>The composite tag\<close>

text \<open>
  Claim C4. Once the metadata of the object is fetched, \<^verbatim>\<open>check_integrity\<close> returns
  true exactly when the reported tag, without the double quotes around it, is the text
  \<open>hex(md5(d\<^sub>1 \<dots> d\<^sub>n))-n\<close>, where \<open>d\<^sub>i\<close> is the raw digest of part \<open>i\<close> in index order.
  So a tag built by that formula and quoted is accepted, and a tag that differs from it
  after unquoting is rejected.
\<close>

theorem check_integrity_verify:
  "check_integrity md5 (cl\<lparr>head_object := Response etag\<rparr>) hs =
     Inr (strip [dquote, dquote] etag =
            hexlify (md5 (concat (map (digest md5) hs))) @ ''-'' @ str_nat (length hs)) \<and>
   check_integrity md5
     (cl\<lparr>head_object := Response (quoted
        (hexlify (md5 (concat (map (digest md5) hs))) @ ''-'' @ str_nat (length hs)))\<rparr>) hs =
     Inr True"
proof -
  let ?local = "hexlify (md5 (concat (map (digest md5) hs))) @ ''-'' @ str_nat (length hs)"
  from strip_quoted [OF local_etag_no_dquote [of md5 hs, unfolded local_etag_def], of 1 1]
  have "strip [dquote, dquote] (quoted ?local) = ?local"
    by (simp add: quoted_def)
  then show ?thesis
    by (auto simp: check_integrity_def local_etag_def Let_def)
qed

theorem check_integrity_verify_witness:
  "check_integrity len_digest
     ((answering (\<lambda>n t. ClientError))\<lparr>head_object := Response (quoted ''02-3'')\<rparr>)
     [md5_of [1], md5_of [2, 3]] = Inr False \<and>
   check_integrity len_digest
     ((answering (\<lambda>n t. ClientError))\<lparr>head_object := Response (quoted ''02-2'')\<rparr>)
     [md5_of [1], md5_of [2, 3]] = Inr True"
proof -
  have e: "hexlify (len_digest (concat (map (digest len_digest) [md5_of [1], md5_of [2, 3]])))
             @ ''-'' @ str_nat (length [md5_of [1], md5_of [2, 3]]) = ''02-2''"
    by (simp add: len_digest_def digest_def md5_of_def hexlify_def hex_digit_def str_nat.simps)
  have s: "strip [dquote, dquote] (quoted ''02-3'') = ''02-3''"
    by (simp add: strip_def quoted_def dquote_def)
  show ?thesis
    using check_integrity_verify [of len_digest "quoted ''02-3''" "answering (\<lambda>n t. ClientError)"
        "[md5_of [1], md5_of [2, 3]]"]
    by (simp only: e s) simp
qed

section \<open>Digests and chunks over a whole run\<close>

lemmas run_defs = do_upload_def init_locals_def before_tries_def clean_up_def Let_def
  answering_def hexdigest_def digest_def md5_of_def md5_update_def md5_new_def
  read_def read_error_def sleep_error_def

lemmas text_defs = quoted_def dquote_def len_digest_def hexlify_def hex_digit_def slice_1_m1_def

lemma chunks_read_append: "chunks_read (es @ fs) = chunks_read es @ chunks_read fs"
  by (induction es rule: chunks_read.induct) simp_all

lemma chunks_read_part_events: "\<forall>e\<in>set es. is_part_event e \<Longrightarrow> chunks_read es = []"
  by (induction es rule: chunks_read.induct) simp_all

lemma fed_foldl_md5_update: "fed (foldl md5_update h cs) = fed h @ concat cs"
  by (induction cs arbitrary: h) (simp_all add: md5_update_def)

lemma foldl_md5_update_chunks:
  "0 < n \<Longrightarrow> foldl md5_update md5_new (chunks n input) = md5_of input"
proof -
  assume "0 < n"
  then have "fed (foldl md5_update md5_new (chunks n input)) = fed (md5_of input)"
    by (simp add: fed_foldl_md5_update concat_chunks md5_new_def md5_of_def)
  then show ?thesis by (rule md5_hash.expand)
qed

lemma upload_tries_hashes:
  "hashes (snd (upload_tries md5 cl uid secs retry chunk h st)) = hashes st"
proof (cases "upload_try st")
  case None
  then show ?thesis by (simp add: upload_tries_unbound)
next
  case (Some t)
  obtain r st2 where "upload_tries md5 cl uid secs retry chunk h st = (r, st2)"
    by (cases "upload_tries md5 cl uid secs retry chunk h st")
  then show ?thesis using upload_tries_result(3) [OF _ Some] by simp
qed

lemma read_loop_reads:
  "read_loop md5 room cl uid chunksize secs retry st = (r, st') \<Longrightarrow>
     \<exists>evs. events st' = events st @ evs \<and> hashes st' = hashes st @ map md5_of (chunks_read evs)"
proof (induction "length (buf st)" arbitrary: st rule: less_induct)
  case less
  show ?case
  proof (cases "read room chunksize (buf st)")
    case (Inl e)
    then have "st' = st" using less.prems by (simp add: read_loop_raise)
    then have "events st' = events st @ [] \<and> hashes st' = hashes st @ map md5_of (chunks_read [])"
      by simp
    then show ?thesis by blast
  next
    case (Inr p)
    obtain chunk rest where p: "p = (chunk, rest)" by (cases p)
    note rd = Inr [unfolded p]
    show ?thesis
    proof (cases "chunk = []")
      case True
      then have "events st' = events st @ [ReadChunk []]" "hashes st' = hashes st"
        using less.prems rd by (auto simp: read_loop_end)
      then have "events st' = events st @ [ReadChunk []] \<and>
          hashes st' = hashes st @ map md5_of (chunks_read [ReadChunk []])" by simp
      then show ?thesis by blast
    next
      case False
      let ?st1 = "st\<lparr>buf := rest, events := events st @ [ReadChunk chunk]\<rparr>"
      obtain r2 st2 where
        t: "upload_tries md5 cl uid secs retry chunk (md5_of chunk) (before_tries chunk ?st1) = (r2, st2)"
        by (cases "upload_tries md5 cl uid secs retry chunk (md5_of chunk) (before_tries chunk ?st1)")
      have b: "upload_try (before_tries chunk ?st1) = Some 0" by (simp add: before_tries_def)
      from upload_tries_result(6) [OF t b] obtain evs where
        evs: "events st2 = events st @ ReadChunk chunk # evs" "\<forall>e\<in>set evs. is_part_event e"
        by (auto simp: before_tries_def)
      have h2: "hashes st2 = hashes st @ [md5_of chunk]"
        using upload_tries_result(3) [OF t b] by (simp add: before_tries_def)
      have cr: "chunks_read (ReadChunk chunk # evs) = [chunk]"
        using False evs(2) by (simp add: chunks_read_part_events)
      show ?thesis
      proof (cases r2)
        case (Some e)
        then have "st' = st2" using less.prems False t rd by (simp add: read_loop_step)
        then have "events st' = events st @ (ReadChunk chunk # evs) \<and>
            hashes st' = hashes st @ map md5_of (chunks_read (ReadChunk chunk # evs))"
          using evs(1) h2 cr by simp
        then show ?thesis by blast
      next
        case None
        let ?st3 = "st2\<lparr>buf := rest\<rparr>"
        have rec: "read_loop md5 room cl uid chunksize secs retry ?st3 = (r, st')"
          using less.prems False t None rd by (simp add: read_loop_step)
        have "length (buf ?st3) < length (buf st)"
          using read_shorter [OF rd False] by simp
        from less.hyps [OF this rec] obtain evs' where
          e': "events st' = events ?st3 @ evs'"
          and h': "hashes st' = hashes ?st3 @ map md5_of (chunks_read evs')" by blast
        have "events st' = events st @ ((ReadChunk chunk # evs) @ evs')"
          using e' evs(1) by simp
        moreover have "hashes st' = hashes st @ map md5_of (chunks_read ((ReadChunk chunk # evs) @ evs'))"
          using h' h2 cr by (simp only: chunks_read_append) simp
        ultimately show ?thesis by blast
      qed
    qed
  qed
qed

lemma do_upload_returns:
  assumes "do_upload md5 room cl input chunksize secs retry = (Inr (uid, d, hs), evs)"
  shows "\<exists>st t. read_loop md5 room cl uid chunksize secs retry (init_locals input) = (None, st) \<and>
           create_multipart_upload cl = Response uid \<and> 0 < chunksize \<and>
           upload_try st = Some t \<and> t < retry \<and> complete_multipart_upload cl = Response () \<and>
           d = in_md5sum st \<and> hs = hashes st \<and>
           evs = events st @ [CompleteMultipartUpload uid (parts st)]"
  using assms
  by (auto simp: do_upload_def clean_up_def split: response.splits if_splits prod.splits option.splits)

lemma do_upload_reads:
  assumes "do_upload md5 room cl input chunksize secs retry = (Inr (uid, d, hs), evs)"
  shows "hs = map md5_of (chunks (nat chunksize) input)"
    and "hs = map md5_of (chunks_read evs)"
    and "d = foldl md5_update md5_new (chunks (nat chunksize) input)"
    and "0 < chunksize"
proof -
  from do_upload_returns [OF assms] obtain st where
    loop: "read_loop md5 room cl uid chunksize secs retry (init_locals input) = (None, st)"
    and pos: "0 < chunksize" and d: "d = in_md5sum st" and hs: "hs = hashes st"
    and evs: "evs = events st @ [CompleteMultipartUpload uid (parts st)]"
    by blast
  show "0 < chunksize" by (rule pos)
  from read_loop_returns [OF loop pos]
  show "hs = map md5_of (chunks (nat chunksize) input)"
    and "d = foldl md5_update md5_new (chunks (nat chunksize) input)"
    by (simp_all add: hs d init_locals_def)
  from read_loop_reads [OF loop] obtain es where
    "events st = CreateMultipartUpload # es" "hashes st = map md5_of (chunks_read es)"
    by (auto simp: init_locals_def)
  then show "hs = map md5_of (chunks_read evs)"
    by (simp add: hs evs chunks_read_append)
qed

lemma slice_quoted: "slice_1_m1 (quoted s) = s"
  by (simp add: slice_1_m1_def quoted_def)

lemma run_failing_part_1:
  "do_upload md5 1048576 (failing_part_1 md5 [2]) [1, 2] 1 0 2 =
   (Inr (''id-1'', MD5 [1, 2], [MD5 [1], MD5 [2]]),
    [CreateMultipartUpload, ReadChunk [1], UploadPart 1 [1] ''id-1'', Sleep 0,
     UploadPart 1 [1] ''id-1'', Sleep 0, ReadChunk [2], UploadPart 2 [2] ''id-1'',
     ReadChunk [], CompleteMultipartUpload ''id-1'' [(2, etag_of md5 [2])]])"
  by (simp add: failing_part_1_def etag_of_def slice_quoted run_defs
      read_loop.simps upload_tries.simps)

text \<open>
  Claim C8. When \<^verbatim>\<open>do_upload\<close> returns, the digest object it returns for the whole
  stream was fed the chunks in the order they were read, these chunks are the input cut
  into pieces of \<open>chunksize\<close> bytes, and the object equals the one fed the whole input at
  once: its hexadecimal digest is that of the entire input.
\<close>

theorem stream_digest_whole_input:
  assumes "do_upload md5 room cl input chunksize secs retry = (Inr (upload_id, md5sum, hs), evs)"
  shows "md5sum = foldl md5_update md5_new (chunks_read evs) \<and>
         chunks_read evs = chunks (nat chunksize) input \<and>
         md5sum = md5_of input \<and>
         hexdigest md5 md5sum = hexlify (md5 input)"
proof -
  note r = do_upload_reads [OF assms]
  have inj: "inj md5_of" by (rule injI) (simp add: md5_of_def)
  have c: "chunks_read evs = chunks (nat chunksize) input"
    using r(1) r(2) inj by (simp add: inj_map_eq_map)
  have w: "md5sum = md5_of input"
    using r(3) r(4) by (simp add: foldl_md5_update_chunks)
  have h: "hexdigest md5 md5sum = hexlify (md5 input)"
    by (simp add: w hexdigest_def digest_def md5_of_def)
  have f: "md5sum = foldl md5_update md5_new (chunks_read evs)"
    using r(3) by (simp only: c)
  show ?thesis using f c w h by (intro conjI)
qed

theorem stream_digest_whole_input_witness:
  "do_upload len_digest 1048576 (failing_part_1 len_digest [2]) [1, 2] 1 0 2 =
     (Inr (''id-1'', MD5 [1, 2], [MD5 [1], MD5 [2]]),
      [CreateMultipartUpload, ReadChunk [1], UploadPart 1 [1] ''id-1'', Sleep 0,
       UploadPart 1 [1] ''id-1'', Sleep 0, ReadChunk [2], UploadPart 2 [2] ''id-1'',
       ReadChunk [], CompleteMultipartUpload ''id-1'' [(2, etag_of len_digest [2])]]) \<and>
   MD5 [1, 2] = md5_of [1, 2] \<and>
   hexdigest len_digest (MD5 [1, 2]) = hexlify (len_digest [1, 2])"
proof -
  note run = run_failing_part_1 [of len_digest]
  from stream_digest_whole_input [OF run]
  have "MD5 [1, 2] = md5_of [1, 2]"
    and "hexdigest len_digest (MD5 [1, 2]) = hexlify (len_digest [1, 2])"
    by blast+
  with run show ?thesis by (intro conjI)
qed

text \<open>
  Claim C10. However the reading loop ends, the list of checksums has one entry for each
  chunk read so far; the entry is appended by the step that precedes the retry loop, and
  the retry loop never changes the list. So the list that \<^verbatim>\<open>do_upload\<close> returns, and that
  \<^verbatim>\<open>upload\<close> hands to \<^verbatim>\<open>check_integrity\<close>, has the checksum of every chunk of the input,
  for every client: also of a chunk whose part was never uploaded.
\<close>

theorem checksum_per_chunk:
  "(read_loop md5 room cl upload_id chunksize secs retry (init_locals input) = (r, st) \<longrightarrow>
      hashes st = map md5_of (chunks_read (events st))) \<and>
   hashes (before_tries chunk st0) = hashes st0 @ [md5_of chunk] \<and>
   hashes (snd (upload_tries md5 cl upload_id secs retry chunk h st0)) = hashes st0 \<and>
   (do_upload md5 room cl input chunksize secs retry = (Inr (upload_id, md5sum, hs), evs) \<longrightarrow>
      hs = map md5_of (chunks_read evs) \<and> hs = map md5_of (chunks (nat chunksize) input))"
proof -
  have "hashes st = map md5_of (chunks_read (events st))"
    if "read_loop md5 room cl upload_id chunksize secs retry (init_locals input) = (r, st)"
    using read_loop_reads [OF that] by (auto simp: init_locals_def)
  moreover have "hashes (before_tries chunk st0) = hashes st0 @ [md5_of chunk]"
    by (simp add: before_tries_def)
  moreover note upload_tries_hashes [of md5 cl upload_id secs retry chunk h st0]
  moreover have "hs = map md5_of (chunks_read evs) \<and> hs = map md5_of (chunks (nat chunksize) input)"
    if "do_upload md5 room cl input chunksize secs retry = (Inr (upload_id, md5sum, hs), evs)"
    using do_upload_reads(1,2) [OF that] by simp
  ultimately show ?thesis by blast
qed

theorem checksum_per_chunk_witness:
  "do_upload len_digest 1048576 (failing_part_1 len_digest [2]) [1, 2] 1 0 2 =
     (Inr (''id-1'', MD5 [1, 2], [MD5 [1], MD5 [2]]),
      [CreateMultipartUpload, ReadChunk [1], UploadPart 1 [1] ''id-1'', Sleep 0,
       UploadPart 1 [1] ''id-1'', Sleep 0, ReadChunk [2], UploadPart 2 [2] ''id-1'',
       ReadChunk [], CompleteMultipartUpload ''id-1'' [(2, etag_of len_digest [2])]]) \<and>
   [MD5 [1], MD5 [2]] = map md5_of (chunks (nat 1) [1, 2])"
proof -
  note run = run_failing_part_1 [of len_digest]
  from checksum_per_chunk [of len_digest 1048576 "failing_part_1 len_digest [2]" "''id-1''" 1 0 2 "[1, 2]" _ _ _ _ _
      "MD5 [1, 2]" "[MD5 [1], MD5 [2]]"] run
  have "[MD5 [1], MD5 [2]] = map md5_of (chunks (nat 1) [1, 2])"
    by blast
  with run show ?thesis by (intro conjI)
qed

section \<open>Runs that never send a part, and runs whose completion fails\<close>

lemma upload_tries_retry_0:
  "upload_try st = Some 0 \<Longrightarrow> upload_tries md5 cl uid secs 0 chunk h st = (None, st)"
  by (subst upload_tries.simps) simp

lemma read_loop_retry_0:
  "read_loop md5 room cl uid chunksize secs 0 st = (r, st') \<Longrightarrow>
   0 < chunksize \<Longrightarrow> read_error room chunksize = None \<Longrightarrow>
     r = None \<and>
     events st' = events st @ map ReadChunk (chunks (nat chunksize) (buf st)) @ [ReadChunk []] \<and>
     (if chunks (nat chunksize) (buf st) = [] then upload_try st' = upload_try st
      else upload_try st' = Some 0)"
proof (induction "length (buf st)" arbitrary: st rule: less_induct)
  case less
  let ?n = "nat chunksize"
  let ?chunk = "take ?n (buf st)"
  let ?rest = "drop ?n (buf st)"
  have rd: "read room chunksize (buf st) = Inr (?chunk, ?rest)"
    using less.prems(2,3) by (simp add: read_returns)
  show ?case
  proof (cases "?chunk = []")
    case True
    then show ?thesis using less.prems(1) rd by (auto simp: read_loop_end chunks_Nil)
  next
    case False
    let ?st2 = "before_tries ?chunk (st\<lparr>buf := ?rest, events := events st @ [ReadChunk ?chunk]\<rparr>)"
    let ?st3 = "?st2\<lparr>buf := ?rest\<rparr>"
    have "upload_try ?st2 = Some 0" by (simp add: before_tries_def)
    then have t: "upload_tries md5 cl uid secs 0 ?chunk (md5_of ?chunk) ?st2 = (None, ?st2)"
      by (rule upload_tries_retry_0)
    have rec: "read_loop md5 room cl uid chunksize secs 0 ?st3 = (r, st')"
      using less.prems(1) by (simp add: read_loop_step [OF rd False] t)
    have "length (buf ?st3) < length (buf st)" using False by auto
    note IH = less.hyps [OF this rec less.prems(2,3)]
    have c: "chunks ?n (buf st) = ?chunk # chunks ?n ?rest"
      using False by (rule chunks_Cons)
    show ?thesis
    proof (cases "chunks ?n ?rest = []")
      case True
      then show ?thesis using IH c by (simp add: before_tries_def)
    next
      case False
      then show ?thesis using IH c by (simp add: before_tries_def)
    qed
  qed
qed

lemma chunks_nonempty: "0 < n \<Longrightarrow> xs \<noteq> [] \<Longrightarrow> chunks n xs \<noteq> []"
  by (subst chunks.simps) simp

lemma do_upload_unreadable:
  assumes "create_multipart_upload cl = Response uid" and "0 < chunksize"
    and "read_error room chunksize = Some e"
  shows "do_upload md5 room cl input chunksize secs retry = (Inl e, [CreateMultipartUpload])"
proof -
  have "read room chunksize (buf (init_locals input)) = Inl e"
    using assms(3) by (simp add: read_raises)
  then have "read_loop md5 room cl uid chunksize secs retry (init_locals input) =
      (Some e, init_locals input)"
    by (rule read_loop_raise)
  then show ?thesis using assms(1,2) by (simp add: do_upload_def init_locals_def)
qed

text \<open>
  Claim C9. With \<open>retry = 0\<close>, an upload that was opened, a non-empty input and a chunk
  size that is positive and that the reader can serve (at most \<open>2\<^sup>6\<^sup>3 - 34\<close> and at most
  what the host can allocate), the run consists of opening the upload, reading every chunk
  of the input and the end of the stream, and one abort call: no part is ever sent. The
  checksum list of the reading loop has one entry for each chunk, and the run ends in a
  failure: exit status 8, or the \<^verbatim>\<open>ClientError\<close> of the abort call itself. (With a
  larger chunk size the first read raises and nothing is read or aborted: lemma
  \<open>do_upload_unreadable\<close>.)
\<close>

theorem retry_zero_reads_all_then_aborts:
  assumes "create_multipart_upload cl = Response upload_id"
    and "0 < chunksize" and "chunksize \<le> 2 ^ 63 - 34" and "chunksize \<le> room"
    and "input \<noteq> []"
  shows "do_upload md5 room cl input chunksize secs 0 =
           (Inl (case abort_multipart_upload cl of
                   ClientError \<Rightarrow> UncaughtClientError | Response u \<Rightarrow> SystemExit 8),
            CreateMultipartUpload # map ReadChunk (chunks (nat chunksize) input) @
              [ReadChunk [], AbortMultipartUpload upload_id]) \<and>
         hashes (snd (read_loop md5 room cl upload_id chunksize secs 0 (init_locals input))) =
           map md5_of (chunks (nat chunksize) input) \<and>
         concat (chunks (nat chunksize) input) = input"
proof -
  have ok: "read_error room chunksize = None"
    using assms(2,3,4) by (simp add: read_error_positive)
  obtain r st where
    loop: "read_loop md5 room cl upload_id chunksize secs 0 (init_locals input) = (r, st)"
    by (cases "read_loop md5 room cl upload_id chunksize secs 0 (init_locals input)")
  have ne: "chunks (nat chunksize) (buf (init_locals input)) \<noteq> []"
    using assms(2,5) by (simp add: init_locals_def chunks_nonempty)
  from read_loop_retry_0 [OF loop assms(2) ok] ne
  have r: "r = None"
    and ev: "events st = CreateMultipartUpload # map ReadChunk (chunks (nat chunksize) input) @ [ReadChunk []]"
    and tr: "upload_try st = Some 0"
    by (simp_all add: init_locals_def)
  have h: "hashes st = map md5_of (chunks (nat chunksize) input)"
    using read_loop_returns [OF loop [unfolded r] assms(2)] by (simp add: init_locals_def)
  have "do_upload md5 room cl input chunksize secs 0 =
           (Inl (case abort_multipart_upload cl of
                   ClientError \<Rightarrow> UncaughtClientError | Response u \<Rightarrow> SystemExit 8),
            CreateMultipartUpload # map ReadChunk (chunks (nat chunksize) input) @
              [ReadChunk [], AbortMultipartUpload upload_id])"
    using assms(1,2) loop r ev tr
    by (simp add: do_upload_def clean_up_def split: response.splits)
  moreover have "concat (chunks (nat chunksize) input) = input"
    using assms(2) by (simp add: concat_chunks)
  ultimately show ?thesis using h loop by simp
qed

theorem retry_zero_reads_all_then_aborts_witness:
  "do_upload len_digest 1048576 (answering (\<lambda>n t. Response (quoted ''01''))) [1, 2] 1 5 0 =
     (Inl (SystemExit 8),
      [CreateMultipartUpload, ReadChunk [1], ReadChunk [2], ReadChunk [],
       AbortMultipartUpload ''id-1'']) \<and>
   hashes (snd (read_loop len_digest 1048576 (answering (\<lambda>n t. Response (quoted ''01'')))
                  ''id-1'' 1 5 0 (init_locals [1, 2]))) = [md5_of [1], md5_of [2]]"
proof -
  have c: "create_multipart_upload (answering (\<lambda>n t. Response (quoted ''01''))) = Response ''id-1''"
    by (simp add: answering_def)
  have a: "abort_multipart_upload (answering (\<lambda>n t. Response (quoted ''01''))) = Response ()"
    by (simp add: answering_def)
  have "(0::int) < 1" and "(1::int) \<le> 2 ^ 63 - 34" and "(1::int) \<le> 1048576"
    and "[1, 2 :: 8 word] \<noteq> []" by simp_all
  from retry_zero_reads_all_then_aborts [OF c this, of len_digest 5]
  show ?thesis by (simp add: a chunks.simps)
qed

text \<open>
  Claim C5. In a run that calls complete-session and gets a \<^verbatim>\<open>ClientError\<close>,
  \<^verbatim>\<open>do_upload\<close> ends the process with exit status 8 (line 179); the failed call is the
  last event of the run and the only complete or abort call in it: completion is not
  tried again and the upload is not aborted.
\<close>

theorem complete_failure_is_terminal:
  assumes "complete_multipart_upload cl = ClientError"
    and "do_upload md5 room cl input chunksize secs retry = (res, evs)"
    and "CompleteMultipartUpload upload_id ps \<in> set evs"
  shows "res = Inl (SystemExit 8) \<and>
         filter is_final evs = [CompleteMultipartUpload upload_id ps] \<and>
         last evs = CompleteMultipartUpload upload_id ps"
proof (cases "create_multipart_upload cl")
  case ClientError
  then show ?thesis using assms(2,3) by (auto simp: do_upload_def)
next
  case (Response uid)
  show ?thesis
  proof (cases "chunksize \<le> 0")
    case True
    then show ?thesis using assms(2,3) Response by (auto simp: do_upload_def)
  next
    case False
    obtain r st where
      loop: "read_loop md5 room cl uid chunksize secs retry (init_locals input) = (r, st)"
      by (cases "read_loop md5 room cl uid chunksize secs retry (init_locals input)")
    from read_loop_events [OF loop] obtain es where
      es: "events st = CreateMultipartUpload # es" "\<forall>e\<in>set es. \<not> is_final e"
      by (auto simp: init_locals_def)
    have nf: "filter is_final (events st) = []"
      using es by simp
    have notin: "CompleteMultipartUpload upload_id ps \<notin> set (events st)"
      using es by auto
    show ?thesis
    proof (cases r)
      case (Some e)
      then have "evs = events st" using assms(2) Response False loop by (simp add: do_upload_def)
      then show ?thesis using assms(3) notin by simp
    next
      case None
      show ?thesis
      proof (cases "upload_try st")
        case no_try: None
        then have "evs = events st"
          using assms(2) Response False loop None by (simp add: do_upload_def)
        then show ?thesis using assms(3) notin by simp
      next
        case (Some t)
        show ?thesis
        proof (cases "t \<ge> retry")
          case True
          then have "evs = events st @ [AbortMultipartUpload uid]"
            using assms(2) Response False loop None Some
            by (auto simp: do_upload_def clean_up_def split: response.splits)
          then show ?thesis using assms(3) notin by simp
        next
          case lt: False
          then have "res = Inl (SystemExit 8)"
            and evs: "evs = events st @ [CompleteMultipartUpload uid (parts st)]"
            using assms(1,2) Response False loop None Some
            by (simp_all add: do_upload_def)
          moreover have "CompleteMultipartUpload upload_id ps = CompleteMultipartUpload uid (parts st)"
            using assms(3) notin evs by simp
          ultimately show ?thesis using nf by simp
        qed
      qed
    qed
  qed
qed

theorem complete_failure_is_terminal_witness:
  "do_upload len_digest 1048576
     ((answering (\<lambda>n t. Response (quoted ''01'')))\<lparr>complete_multipart_upload := ClientError\<rparr>)
     [1] 1 0 2 =
     (Inl (SystemExit 8),
      [CreateMultipartUpload, ReadChunk [1], UploadPart 1 [1] ''id-1'', ReadChunk [],
       CompleteMultipartUpload ''id-1'' [(1, quoted ''01'')]]) \<and>
   filter is_final
     [CreateMultipartUpload, ReadChunk [1], UploadPart 1 [1] ''id-1'', ReadChunk [],
      CompleteMultipartUpload ''id-1'' [(1, quoted ''01'')]] =
     [CompleteMultipartUpload ''id-1'' [(1, quoted ''01'')]]"
proof -
  let ?cl = "(answering (\<lambda>n t. Response (quoted ''01'')))\<lparr>complete_multipart_upload := ClientError\<rparr>"
  let ?evs = "[CreateMultipartUpload, ReadChunk [1], UploadPart 1 [1] ''id-1'', ReadChunk [],
      CompleteMultipartUpload ''id-1'' [(1, quoted ''01'')]]"
  have c: "complete_multipart_upload ?cl = ClientError" by simp
  have run: "do_upload len_digest 1048576 ?cl [1] 1 0 2 = (Inl (SystemExit 8), ?evs)"
    by (simp add: run_defs text_defs read_loop.simps upload_tries.simps)
  have m: "CompleteMultipartUpload ''id-1'' [(1, quoted ''01'')] \<in> set ?evs" by simp
  from complete_failure_is_terminal [OF c run m]
  have "filter is_final ?evs = [CompleteMultipartUpload ''id-1'' [(1, quoted ''01'')]]"
    by blast
  with run show ?thesis by (intro conjI)
qed

section \<open>How the process ends\<close>

lemma read_loop_exn:
  "fst (read_loop md5 room cl uid chunksize secs retry st) \<in>
     {None, Some ValueError, Some OverflowError, Some MemoryError, Some UnboundLocalError}"
proof (induction "length (buf st)" arbitrary: st rule: less_induct)
  case less
  show ?case
  proof (cases "read room chunksize (buf st)")
    case (Inl e)
    then have "read_error room chunksize = Some e" by (simp add: read_raises)
    then have "e \<in> {ValueError, OverflowError, MemoryError}"
      using read_error_cases [of room chunksize] by auto
    then show ?thesis using Inl by (auto simp: read_loop_raise)
  next
    case (Inr p)
    obtain chunk rest where p: "p = (chunk, rest)" by (cases p)
    note rd = Inr [unfolded p]
    show ?thesis
    proof (cases "chunk = []")
      case True
      then show ?thesis using rd by (simp add: read_loop_end)
    next
      case False
      let ?st2 = "before_tries chunk (st\<lparr>buf := rest, events := events st @ [ReadChunk chunk]\<rparr>)"
      obtain r2 st2 where
        t: "upload_tries md5 cl uid secs retry chunk (md5_of chunk) ?st2 = (r2, st2)"
        by (cases "upload_tries md5 cl uid secs retry chunk (md5_of chunk) ?st2")
      have x: "r2 \<in> {None, Some ValueError, Some OverflowError, Some UnboundLocalError}"
        using upload_tries_exn [of md5 cl uid secs retry chunk "md5_of chunk" ?st2] t by simp
      show ?thesis
      proof (cases r2)
        case (Some e)
        then show ?thesis using x t by (auto simp: read_loop_step [OF rd False])
      next
        case None
        have "length (buf (st2\<lparr>buf := rest\<rparr>)) < length (buf st)"
          using read_shorter [OF rd False] by simp
        from less.hyps [OF this] show ?thesis
          using t None by (simp add: read_loop_step [OF rd False])
      qed
    qed
  qed
qed

lemma do_upload_raises:
  assumes "fst (do_upload md5 room cl input chunksize secs retry) = Inl e"
  shows "(create_multipart_upload cl = ClientError \<and> e = SystemExit 7) \<or>
         (create_multipart_upload cl \<noteq> ClientError \<and>
          e \<in> {SystemExit 8, ValueError, OverflowError, MemoryError, UnboundLocalError,
               UncaughtClientError})"
proof (cases "create_multipart_upload cl")
  case ClientError
  then show ?thesis using assms by (simp add: do_upload_def)
next
  case (Response uid)
  obtain r st where
    loop: "read_loop md5 room cl uid chunksize secs retry (init_locals input) = (r, st)"
    by (cases "read_loop md5 room cl uid chunksize secs retry (init_locals input)")
  have "r \<in> {None, Some ValueError, Some OverflowError, Some MemoryError, Some UnboundLocalError}"
    using read_loop_exn [of md5 room cl uid chunksize secs retry "init_locals input"] loop by simp
  then show ?thesis using assms Response loop
    by (auto simp: do_upload_def clean_up_def split: if_splits option.splits response.splits)
qed

lemma do_upload_returns_opened:
  "fst (do_upload md5 room cl input chunksize secs retry) = Inr v \<Longrightarrow>
     create_multipart_upload cl \<noteq> ClientError"
  by (auto simp: do_upload_def)

lemma check_integrity_cases:
  "check_integrity md5 cl hs = Inl e \<longleftrightarrow> e = SystemExit 8 \<and> head_object cl = ClientError"
  by (auto simp: check_integrity_def Let_def split: response.splits)

lemma complete_failed_exit_8:
  assumes "complete_multipart_upload cl = ClientError"
    and "CompleteMultipartUpload u ps \<in> set (snd (do_upload md5 room cl input chunksize secs retry))"
  shows "fst (do_upload md5 room cl input chunksize secs retry) = Inl (SystemExit 8)"
proof (cases "create_multipart_upload cl")
  case ClientError
  then show ?thesis using assms(2) by (simp add: do_upload_def)
next
  case (Response uid)
  show ?thesis
  proof (cases "chunksize \<le> 0")
    case True
    then show ?thesis using assms(2) Response by (simp add: do_upload_def)
  next
    case False
    obtain r st where
      loop: "read_loop md5 room cl uid chunksize secs retry (init_locals input) = (r, st)"
      by (cases "read_loop md5 room cl uid chunksize secs retry (init_locals input)")
    from read_loop_events [OF loop] obtain es where
      "events st = CreateMultipartUpload # es" "\<forall>e\<in>set es. \<not> is_final e"
      by (auto simp: init_locals_def)
    then have notin: "CompleteMultipartUpload u ps \<notin> set (events st)"
      by auto
    show ?thesis using assms Response False loop notin
      by (auto simp: do_upload_def clean_up_def split: option.splits if_splits response.splits)
  qed
qed

text \<open>
  Claim C7, as amended. Read by the exit status of the process: status 7 is left exactly
  when the upload cannot be opened, and status 0 exactly when \<^verbatim>\<open>do_upload\<close> returns and
  the composite tag matches; a composite tag that does not match leaves status 1; a failed
  fetch of the metadata after completion and a failed completion both leave status 8. So
  session-init failure, mismatch, success and the pair of complete failure and missing
  object are told apart, a missing object differs from a mismatch, and complete failure
  and missing object end the process alike.
\<close>

theorem exit_status_classes:
  "(exit_status (upload md5 room cl input chunksize secs retry) = 7 \<longleftrightarrow>
      create_multipart_upload cl = ClientError) \<and>
   (exit_status (upload md5 room cl input chunksize secs retry) = 0 \<longleftrightarrow>
      (\<exists>uid d hs. fst (do_upload md5 room cl input chunksize secs retry) = Inr (uid, d, hs) \<and>
         check_integrity md5 cl hs = Inr True)) \<and>
   ((\<exists>uid d hs. fst (do_upload md5 room cl input chunksize secs retry) = Inr (uid, d, hs) \<and>
       check_integrity md5 cl hs = Inr False) \<longrightarrow>
      exit_status (upload md5 room cl input chunksize secs retry) = 1) \<and>
   ((\<exists>uid d hs. fst (do_upload md5 room cl input chunksize secs retry) = Inr (uid, d, hs) \<and>
       head_object cl = ClientError) \<longrightarrow>
      exit_status (upload md5 room cl input chunksize secs retry) = 8) \<and>
   (complete_multipart_upload cl = ClientError \<and>
    (\<exists>uid ps. CompleteMultipartUpload uid ps \<in>
       set (snd (do_upload md5 room cl input chunksize secs retry))) \<longrightarrow>
      exit_status (upload md5 room cl input chunksize secs retry) = 8)"
proof (cases "fst (do_upload md5 room cl input chunksize secs retry)")
  case (Inl e)
  have u: "upload md5 room cl input chunksize secs retry = e"
    using Inl by (simp add: upload_def)
  have 5: "exit_status e = 8"
    if "complete_multipart_upload cl = ClientError"
      and "CompleteMultipartUpload uid ps \<in>
             set (snd (do_upload md5 room cl input chunksize secs retry))" for uid ps
    using complete_failed_exit_8 [OF that] Inl by (simp add: exit_status_def)
  from do_upload_raises [OF Inl] have
    "exit_status e = 7 \<longleftrightarrow> create_multipart_upload cl = ClientError"
    and "exit_status e \<noteq> 0"
    by (auto simp: exit_status_def)
  then show ?thesis using Inl 5 by (auto simp: u)
next
  case (Inr v)
  obtain uid d hs where v: "v = (uid, d, hs)" by (cases v)
  have c: "create_multipart_upload cl \<noteq> ClientError"
    using Inr by (rule do_upload_returns_opened)
  have nc: "\<not> (complete_multipart_upload cl = ClientError \<and>
      (\<exists>uid ps. CompleteMultipartUpload uid ps \<in>
         set (snd (do_upload md5 room cl input chunksize secs retry))))"
    using complete_failed_exit_8 [of cl _ _ md5 room input chunksize secs retry] Inr by auto
  show ?thesis
  proof (cases "check_integrity md5 cl hs")
    case (Inl e)
    then have "upload md5 room cl input chunksize secs retry = SystemExit 8"
      and "head_object cl = ClientError"
      using Inr v check_integrity_cases [of md5 cl hs e] by (simp_all add: upload_def)
    then show ?thesis using Inl Inr v c nc by (auto simp: exit_status_def)
  next
    case ok: (Inr b)
    then have "upload md5 room cl input chunksize secs retry =
        (if b then SystemExit 0 else SystemExit 1)"
      using Inr v by (simp add: upload_def)
    moreover have "head_object cl \<noteq> ClientError"
      using ok by (auto simp: check_integrity_def)
    ultimately show ?thesis using ok Inr v c nc by (auto simp: exit_status_def)
  qed
qed

section \<open>The number of chunks\<close>

lemma length_chunks: "0 < n \<Longrightarrow> length (chunks n xs) = (length xs + n - 1) div n"
proof (induction n xs rule: chunks.induct)
  case (1 n xs)
  show ?case
  proof (cases "xs = []")
    case True
    then show ?thesis using "1.prems" by (simp add: chunks_Nil)
  next
    case False
    then have ne: "take n xs \<noteq> []" using "1.prems" by simp
    have IH: "length (chunks n (drop n xs)) = (length xs - n + n - 1) div n"
      using "1.IH" "1.prems" False by simp
    show ?thesis
    proof (cases "length xs \<le> n")
      case True
      then have "chunks n (drop n xs) = []" by (simp add: chunks_Nil)
      moreover have "(length xs + n - 1) div n = 1"
      proof -
        have "0 < length xs" using False by simp
        then have "n \<le> length xs + n - 1" "length xs + n - 1 < 2 * n" using True by arith+
        then show ?thesis by (intro div_nat_eqI) simp_all
      qed
      ultimately show ?thesis using ne by (simp add: chunks_Cons)
    next
      case False
      then have e: "length xs + n - 1 = (length xs - n + n - 1) + n" by arith
      have d: "(a + n) div n = a div n + 1" for a
        using "1.prems" div_add_self2 [of n a] by simp
      have "(length xs + n - 1) div n = (length xs - n + n - 1) div n + 1"
        by (simp only: e d)
      moreover have "length (chunks n xs) = length (chunks n (drop n xs)) + 1"
        by (simp add: chunks_Cons [OF ne])
      ultimately show ?thesis by (simp only: IH)
    qed
  qed
qed

section \<open>Arguments beyond what the library calls accept\<close>

lemma huge_chunksize_raises:
  "do_upload md5 room (answering f) input (2 ^ 63 - 33) secs retry =
     (Inl OverflowError, [CreateMultipartUpload])"
proof -
  have "create_multipart_upload (answering f) = Response ''id-1''"
    by (simp add: answering_def)
  moreover have "(0::int) < 2 ^ 63 - 33" by simp
  moreover have "read_error room (2 ^ 63 - 33) = Some OverflowError"
    by (simp add: read_error_def)
  ultimately show ?thesis by (rule do_upload_unreadable)
qed

lemma chunksize_beyond_room_raises:
  "do_upload md5 1048576 (answering f) input 1048577 secs retry =
     (Inl MemoryError, [CreateMultipartUpload])"
proof -
  have "create_multipart_upload (answering f) = Response ''id-1''"
    by (simp add: answering_def)
  moreover have "(0::int) < 1048577" by simp
  moreover have "read_error 1048576 1048577 = Some MemoryError"
    by (simp add: read_error_def)
  ultimately show ?thesis by (rule do_upload_unreadable)
qed

lemma huge_sleep_raises:
  "do_upload md5 1048576 (answering (\<lambda>n t. ClientError)) [1] 1 9223372037 2 =
     (Inl OverflowError,
      [CreateMultipartUpload, ReadChunk [1], UploadPart 1 [1] ''id-1''])"
  by (simp add: run_defs read_loop.simps upload_tries.simps)

section \<open>Runs that show where the program leaves the specification\<close>

lemma do_upload_empty_input:
  assumes "create_multipart_upload cl = Response uid" and "0 < chunksize"
    and "read_error room chunksize = None"
  shows "do_upload md5 room cl [] chunksize secs retry =
           (Inl UnboundLocalError, [CreateMultipartUpload, ReadChunk []])"
proof -
  have "read room chunksize (buf (init_locals [])) = Inr ([], [])"
    using assms(2,3) by (simp add: read_returns init_locals_def)
  from read_loop_end [OF this] show ?thesis
    using assms(1,2) by (simp add: do_upload_def init_locals_def)
qed

text \<open>
  Claim C1, at a failing input, for every digest function: two chunks, two attempts for each
  part, no attempt of part 1 succeeds. After the second failed attempt the run reads the
  next chunk, sends part 2, and completes the upload with part 2 alone; it never aborts.
\<close>

theorem exhausted_part_then_next_chunk:
  "do_upload md5 1048576 (failing_part_1 md5 [2]) [1, 2] 1 0 2 =
     (Inr (''id-1'', MD5 [1, 2], [MD5 [1], MD5 [2]]),
      [CreateMultipartUpload, ReadChunk [1], UploadPart 1 [1] ''id-1'', Sleep 0,
       UploadPart 1 [1] ''id-1'', Sleep 0, ReadChunk [2], UploadPart 2 [2] ''id-1'',
       ReadChunk [], CompleteMultipartUpload ''id-1'' [(2, etag_of md5 [2])]])"
  by (simp add: failing_part_1_def etag_of_def slice_quoted run_defs
      read_loop.simps upload_tries.simps)

text \<open>
  Claim C2, at a failing input, for every digest function: one chunk, the first attempt
  answers with a tag that does not match, the second with the matching tag. The list given
  to complete-session has two entries for index 1, the first with the tag of the failed
  attempt.
\<close>

theorem mismatch_then_success_two_entries:
  "do_upload md5 1048576 (mismatch_then_ok md5 [1]) [1] 1 0 3 =
     (Inr (''id-1'', MD5 [1], [MD5 [1]]),
      [CreateMultipartUpload, ReadChunk [1], UploadPart 1 [1] ''id-1'', Sleep 0,
       UploadPart 1 [1] ''id-1'', ReadChunk [],
       CompleteMultipartUpload ''id-1'' [(1, wrong_etag md5 [1]), (1, etag_of md5 [1])]])"
  by (simp add: mismatch_then_ok_def etag_of_def wrong_etag_def slice_quoted run_defs
      read_loop.simps upload_tries.simps)

text \<open>
  Claim C3, at a failing input: the empty stream. The first read returns nothing, the loop
  ends with \<open>upload_try\<close> unbound, and line 158 raises \<^verbatim>\<open>UnboundLocalError\<close>: the upload
  is neither completed nor aborted.
\<close>

theorem empty_input_raises:
  "do_upload md5 1048576 (answering f) [] 1 secs retry =
     (Inl UnboundLocalError, [CreateMultipartUpload, ReadChunk []]) \<and>
   upload md5 1048576 (answering f) [] 1 secs retry = UnboundLocalError"
proof -
  have "create_multipart_upload (answering f) = Response ''id-1''"
    by (simp add: answering_def)
  moreover have "(0::int) < 1" by simp
  moreover have "read_error 1048576 1 = None" by (simp add: read_error_def)
  ultimately have "do_upload md5 1048576 (answering f) [] 1 secs retry =
      (Inl UnboundLocalError, [CreateMultipartUpload, ReadChunk []])"
    by (rule do_upload_empty_input)
  then show ?thesis by (simp add: upload_def)
qed

text \<open>
  Claim C6, at a failing input, for every digest function: the same run twice, the first
  attempt of part 1 answered once by a tag that does not match and once by a
  \<^verbatim>\<open>ClientError\<close>. Attempts and sleeps are the same, but the tag that did not match
  stays in the list given to complete-session.
\<close>

theorem mismatch_is_not_a_transport_error:
  "do_upload md5 1048576 (mismatch_then_ok md5 [1]) [1] 1 0 3 =
     (Inr (''id-1'', MD5 [1], [MD5 [1]]),
      [CreateMultipartUpload, ReadChunk [1], UploadPart 1 [1] ''id-1'', Sleep 0,
       UploadPart 1 [1] ''id-1'', ReadChunk [],
       CompleteMultipartUpload ''id-1'' [(1, wrong_etag md5 [1]), (1, etag_of md5 [1])]]) \<and>
   do_upload md5 1048576 (error_then_ok md5 [1]) [1] 1 0 3 =
     (Inr (''id-1'', MD5 [1], [MD5 [1]]),
      [CreateMultipartUpload, ReadChunk [1], UploadPart 1 [1] ''id-1'', Sleep 0,
       UploadPart 1 [1] ''id-1'', ReadChunk [],
       CompleteMultipartUpload ''id-1'' [(1, etag_of md5 [1])]])"
  by (simp add: mismatch_then_ok_def error_then_ok_def etag_of_def wrong_etag_def slice_quoted
      run_defs read_loop.simps upload_tries.simps)

text \<open>
  Claim C7 as stated fails: a run whose completion fails and a run whose metadata cannot
  be fetched after completion end the process in the same way, with status 8.
\<close>

theorem complete_failure_and_missing_object_alike:
  "upload len_digest 1048576
     ((answering (\<lambda>n t. Response (quoted ''01'')))\<lparr>complete_multipart_upload := ClientError\<rparr>)
     [1] 1 0 2 = SystemExit 8 \<and>
   upload len_digest 1048576 (answering (\<lambda>n t. Response (quoted ''01''))) [1] 1 0 2 =
     SystemExit 8 \<and>
   exit_status (SystemExit 8) = 8"
  by (simp add: upload_def check_integrity_def exit_status_def run_defs text_defs
      read_loop.simps upload_tries.simps)

theorem exit_status_classes_witness:
  "exit_status (upload len_digest 1048576
     ((answering (\<lambda>n t. Response (quoted ''01'')))\<lparr>head_object := Response (quoted ''ff-1'')\<rparr>)
     [1] 1 0 2) = 1 \<and>
   exit_status (upload len_digest 1048576 (answering (\<lambda>n t. Response (quoted ''01'')))
     [1] 1 0 2) = 8 \<and>
   exit_status (upload len_digest 1048576
     ((answering (\<lambda>n t. Response (quoted ''01'')))\<lparr>complete_multipart_upload := ClientError\<rparr>)
     [1] 1 0 2) = 8"
proof -
  let ?ok = "answering (\<lambda>n t. Response (quoted ''01''))"
  let ?bad = "?ok\<lparr>head_object := Response (quoted ''ff-1'')\<rparr>"
  let ?cf = "?ok\<lparr>complete_multipart_upload := ClientError\<rparr>"
  have 1: "fst (do_upload len_digest 1048576 ?bad [1] 1 0 2) = Inr (''id-1'', MD5 [1], [MD5 [1]])"
    by (simp add: run_defs text_defs read_loop.simps upload_tries.simps)
  have 2: "check_integrity len_digest ?bad [MD5 [1]] = Inr False"
    by (simp add: check_integrity_def local_etag_def strip_def str_nat.simps run_defs text_defs)
  have 3: "fst (do_upload len_digest 1048576 ?ok [1] 1 0 2) = Inr (''id-1'', MD5 [1], [MD5 [1]])"
    by (simp add: run_defs text_defs read_loop.simps upload_tries.simps)
  have 4: "head_object ?ok = ClientError" by (simp add: answering_def)
  have 5: "complete_multipart_upload ?cf = ClientError" by simp
  have 6: "CompleteMultipartUpload ''id-1'' [(1, quoted ''01'')] \<in>
      set (snd (do_upload len_digest 1048576 ?cf [1] 1 0 2))"
    by (simp add: run_defs text_defs read_loop.simps upload_tries.simps)
  from exit_status_classes [of len_digest 1048576 ?bad "[1]" 1 0 2] 1 2
  have a: "exit_status (upload len_digest 1048576 ?bad [1] 1 0 2) = 1" by blast
  from exit_status_classes [of len_digest 1048576 ?ok "[1]" 1 0 2] 3 4
  have b: "exit_status (upload len_digest 1048576 ?ok [1] 1 0 2) = 8" by blast
  from exit_status_classes [of len_digest 1048576 ?cf "[1]" 1 0 2] 5 6
  have c: "exit_status (upload len_digest 1048576 ?cf [1] 1 0 2) = 8" by blast
  from a b c show ?thesis by (intro conjI)
qed

end
